theory Spec2Isabelle
  imports Main
begin

section \<open>Data model of App.js\<close>

text \<open>
  The board of \<^verbatim>\<open>App.js\<close> is a JavaScript array whose elements are \<^verbatim>\<open>null\<close>,
  \<^verbatim>\<open>'X'\<close> or \<^verbatim>\<open>'O'\<close>. A JavaScript array can also have holes (positions
  that were never assigned, created when an assignment lands beyond the end); reading a
  hole, or any position at or beyond \<^verbatim>\<open>length\<close>, yields \<^verbatim>\<open>undefined\<close>. The
  program never stores \<^verbatim>\<open>undefined\<close> itself, so one constructor \<open>Hole\<close> stands both
  for a hole of the array and for the \<^verbatim>\<open>undefined\<close> that reading it gives.
\<close>

datatype mark = MarkX | MarkO

datatype cell = Hole | Null | Str mark

type_synonym board = "cell list"

text \<open>JavaScript truthiness of a cell value: the two non-empty strings are truthy,
  \<^verbatim>\<open>null\<close> and \<^verbatim>\<open>undefined\<close> are falsy.\<close>

fun truthy :: "cell \<Rightarrow> bool" where
  "truthy (Str m) = True"
| "truthy Null = False"
| "truthy Hole = False"

text \<open>\<^verbatim>\<open>squares[i]\<close> for an array index \<open>i\<close> (a non-negative integer).\<close>

definition get :: "board \<Rightarrow> nat \<Rightarrow> cell" where
  "get squares i = (if i < length squares then squares ! i else Hole)"

text \<open>\<^verbatim>\<open>copy[i] = v\<close> on a fresh copy (\<^verbatim>\<open>squares.slice()\<close> keeps elements and holes):
  inside the array the element is replaced; at or beyond the end the array grows, the
  positions in between becoming holes.\<close>

definition js_set :: "board \<Rightarrow> nat \<Rightarrow> cell \<Rightarrow> board" where
  "js_set squares i v =
     (if i < length squares then squares[i := v]
      else squares @ replicate (i - length squares) Hole @ [v])"

text \<open>The constant \<^verbatim>\<open>WIN_LINES\<close> (lines 238 to 247), each row destructured by the
  code as \<^verbatim>\<open>[a, b, c]\<close>.\<close>

type_synonym line = "nat \<times> nat \<times> nat"

definition WIN_LINES :: "line list" where
  "WIN_LINES =
     [(0, 1, 2), (3, 4, 5), (6, 7, 8),
      (0, 3, 6), (1, 4, 7), (2, 5, 8),
      (0, 4, 8), (2, 4, 6)]"

section \<open>Outcome evaluator\<close>

text \<open>The test both scanning loops make on a line:
  \<^verbatim>\<open>squares[a] && squares[a] === squares[b] && squares[a] === squares[c]\<close>.\<close>

fun line_won :: "board \<Rightarrow> line \<Rightarrow> bool" where
  "line_won squares (a, b, c) =
     (truthy (get squares a) \<and> get squares a = get squares b \<and> get squares a = get squares c)"

text \<open>The loop of \<^verbatim>\<open>calculateWinner\<close> over the remaining lines: the first line that
  passes the test returns \<^verbatim>\<open>squares[a]\<close>, and running off the end returns \<^verbatim>\<open>null\<close>.\<close>

fun winner_scan :: "board \<Rightarrow> line list \<Rightarrow> cell" where
  "winner_scan squares [] = Null"
| "winner_scan squares (l # ls) =
     (case l of (a, b, c) \<Rightarrow>
        if truthy (get squares a) \<and> get squares a = get squares b \<and> get squares a = get squares c
        then get squares a
        else winner_scan squares ls)"

definition calculateWinner :: "board \<Rightarrow> cell" where
  "calculateWinner squares = winner_scan squares WIN_LINES"

text \<open>The loop of \<^verbatim>\<open>getWinningLine\<close>: same test, returning the triple or \<^verbatim>\<open>null\<close>
  (\<open>None\<close>).\<close>

fun line_scan :: "board \<Rightarrow> line list \<Rightarrow> line option" where
  "line_scan squares [] = None"
| "line_scan squares (l # ls) =
     (case l of (a, b, c) \<Rightarrow>
        if truthy (get squares a) \<and> get squares a = get squares b \<and> get squares a = get squares c
        then Some (a, b, c)
        else line_scan squares ls)"

definition getWinningLine :: "board \<Rightarrow> line option" where
  "getWinningLine squares = line_scan squares WIN_LINES"

text \<open>Specification vocabulary: a line is fully occupied by mark \<open>m\<close> when its three
  cells all hold \<open>m\<close>.\<close>

fun line_full :: "board \<Rightarrow> mark \<Rightarrow> line \<Rightarrow> bool" where
  "line_full squares m (a, b, c) =
     (get squares a = Str m \<and> get squares b = Str m \<and> get squares c = Str m)"

definition completed :: "board \<Rightarrow> line \<Rightarrow> bool" where
  "completed squares l = (line_full squares MarkX l \<or> line_full squares MarkO l)"

section \<open>Move selector\<close>

text \<open>
  The two scanning loops of \<^verbatim>\<open>chooseBestMove\<close> (lines 208 to 214 and 216 to 222) are
  the same loop run for a different mark: for \<open>i\<close> from the current position up to 8, an
  empty cell is filled with the mark on a copy of the board, and \<open>i\<close> is returned as soon
  as \<^verbatim>\<open>calculateWinner(copy)\<close> is that mark. \<open>None\<close> stands for leaving the loop without
  returning.
\<close>

function winning_cell :: "board \<Rightarrow> mark \<Rightarrow> nat \<Rightarrow> nat option" where
  "winning_cell squares who i =
     (if i < 9 then
        (if \<not> truthy (get squares i)
            \<and> calculateWinner (js_set squares i (Str who)) = Str who
         then Some i
         else winning_cell squares who (i + 1))
      else None)"
  by pat_completeness auto
termination
  by (relation "measure (\<lambda>(squares, who, i). 9 - i)") auto

declare winning_cell.simps [simp del]

text \<open>\<^verbatim>\<open>[...].filter((i) => !squares[i])\<close>\<close>

definition free_of :: "board \<Rightarrow> nat list \<Rightarrow> nat list" where
  "free_of squares is = filter (\<lambda>i. \<not> truthy (get squares i)) is"

text \<open>\<^verbatim>\<open>chooseBestMove(squares, ai, human)\<close>: a cell index, or \<open>-1\<close>.\<close>

definition chooseBestMove :: "board \<Rightarrow> mark \<Rightarrow> mark \<Rightarrow> int" where
  "chooseBestMove squares ai human =
     (case winning_cell squares ai 0 of
        Some i \<Rightarrow> int i
      | None \<Rightarrow>
         (case winning_cell squares human 0 of
            Some i \<Rightarrow> int i
          | None \<Rightarrow>
             if \<not> truthy (get squares 4) then 4
             else let corners = free_of squares [0, 2, 6, 8] in
               if corners \<noteq> [] then int (hd corners)
               else let sides = free_of squares [1, 3, 5, 7] in
                 if sides \<noteq> [] then int (hd sides)
                 else - 1))"

text \<open>Specification vocabulary: cell \<open>i\<close> would complete three-in-a-row for mark \<open>m\<close>
  when some line passes through \<open>i\<close> and its two other cells already hold \<open>m\<close>.\<close>

fun completes_line :: "board \<Rightarrow> mark \<Rightarrow> nat \<Rightarrow> line \<Rightarrow> bool" where
  "completes_line squares m i (a, b, c) =
     ((i = a \<and> get squares b = Str m \<and> get squares c = Str m)
      \<or> (i = b \<and> get squares a = Str m \<and> get squares c = Str m)
      \<or> (i = c \<and> get squares a = Str m \<and> get squares b = Str m))"

definition completes :: "board \<Rightarrow> mark \<Rightarrow> nat \<Rightarrow> bool" where
  "completes squares m i = list_ex (completes_line squares m i) WIN_LINES"

definition empty_cell :: "board \<Rightarrow> nat \<Rightarrow> bool" where
  "empty_cell squares i = (\<not> truthy (get squares i))"

text \<open>The test the scanning loop of \<open>winning_cell\<close> makes at position \<open>i\<close>.\<close>

definition wins_at :: "board \<Rightarrow> mark \<Rightarrow> nat \<Rightarrow> bool" where
  "wins_at squares who i =
     (\<not> truthy (get squares i) \<and> calculateWinner (js_set squares i (Str who)) = Str who)"

text \<open>The empty cells that would complete three-in-a-row for \<open>m\<close>, in ascending order.\<close>

definition threats :: "board \<Rightarrow> mark \<Rightarrow> nat list" where
  "threats squares m = filter (\<lambda>i. empty_cell squares i \<and> completes squares m i) [0..<9]"

section \<open>Game session\<close>

text \<open>
  The four \<^verbatim>\<open>useState\<close> variables of \<^verbatim>\<open>App\<close> (lines 20 to 23). The mode is the string
  \<^verbatim>\<open>'pvp'\<close> or \<^verbatim>\<open>'pvc'\<close>.
\<close>

datatype game_mode = PvP | PvC

record session =
  board :: board
  xIsNext :: bool
  mode :: game_mode
  isGameOver :: bool

definition initial_session :: session where
  "initial_session =
     \<lparr>board = replicate 9 Null, xIsNext = True, mode = PvP, isGameOver = False\<rparr>"

text \<open>\<^verbatim>\<open>board.every(Boolean)\<close>: \<^verbatim>\<open>every\<close> does not call its argument on a hole.\<close>

definition every_Boolean :: "board \<Rightarrow> bool" where
  "every_Boolean squares = list_all (\<lambda>c. c = Hole \<or> truthy c) squares"

text \<open>The memo \<^verbatim>\<open>isDraw\<close> (line 26), \<^verbatim>\<open>winner\<close> being \<^verbatim>\<open>calculateWinner(board)\<close>.\<close>

definition isDraw :: "board \<Rightarrow> bool" where
  "isDraw squares = (\<not> truthy (calculateWinner squares) \<and> every_Boolean squares)"

text \<open>The status the component derives from the board at each render, as
  \<^verbatim>\<open>statusText\<close> (lines 75 to 79) distinguishes it.\<close>

datatype status = InProgress | Won mark | Draw

definition gameStatus :: "board \<Rightarrow> status" where
  "gameStatus squares =
     (case calculateWinner squares of
        Str m \<Rightarrow> Won m
      | _ \<Rightarrow> if isDraw squares then Draw else InProgress)"

text \<open>\<^verbatim>\<open>handleCellClick(index)\<close>, the state updates applied.\<close>

definition handleCellClick :: "session \<Rightarrow> nat \<Rightarrow> session" where
  "handleCellClick st index =
     (if isGameOver st \<or> truthy (get (board st) index) then st
      else st\<lparr>board := js_set (board st) index (Str (if xIsNext st then MarkX else MarkO)),
              xIsNext := \<not> xIsNext st\<rparr>)"

definition restartGame :: "session \<Rightarrow> session" where
  "restartGame st = st\<lparr>board := replicate 9 Null, xIsNext := True, isGameOver := False\<rparr>"

definition switchMode :: "session \<Rightarrow> game_mode \<Rightarrow> session" where
  "switchMode st newMode =
     st\<lparr>mode := newMode, board := replicate 9 Null, xIsNext := True, isGameOver := False\<rparr>"

text \<open>
  The two effects run after a render and read the values of that render. The first
  (lines 29 to 31) stores the game-over flag; the second (lines 43 to 56) is the move of
  the computer. Each is given as the state updates it requests.
\<close>

definition gameOverEffect :: "session \<Rightarrow> session" where
  "gameOverEffect st =
     st\<lparr>isGameOver := (truthy (calculateWinner (board st)) \<or> isDraw (board st))\<rparr>"

definition aiEffect :: "session \<Rightarrow> session" where
  "aiEffect st =
     (if mode st \<noteq> PvC then st
      else if isGameOver st then st
      else if \<not> xIsNext st then
        (let move = chooseBestMove (board st) MarkO MarkX in
         if move \<noteq> - 1
         then st\<lparr>board := js_set (board st) (nat move) (Str MarkO), xIsNext := True\<rparr>
         else st)
      else st)"

text \<open>
  One render followed by its effects. Both effects see the same rendered state \<open>st\<close>;
  the first writes only the flag, the second only the board and the turn, so the batch of
  their updates is the state below. (React skips an effect whose dependencies did not
  change; each effect is a function of its dependencies, so running it again requests
  the values already stored.)
\<close>

definition commit :: "session \<Rightarrow> session" where
  "commit st = (aiEffect st)\<lparr>isGameOver := isGameOver (gameOverEffect st)\<rparr>"

text \<open>Rendering repeats while the effects change the state.\<close>

partial_function (option) settle :: "session \<Rightarrow> session option" where
  "settle st = (if commit st = st then Some st else settle (commit st))"

declare settle.simps [code]

text \<open>A user event, then the renders it causes. Events are handled in a settled state.\<close>

definition click :: "session \<Rightarrow> nat \<Rightarrow> session option" where
  "click st index = settle (handleCellClick st index)"

fun clicks :: "session \<Rightarrow> nat list \<Rightarrow> session option" where
  "clicks st [] = Some st"
| "clicks st (i # is) = (case click st i of None \<Rightarrow> None | Some st' \<Rightarrow> clicks st' is)"

text \<open>The turn's mark, \<^verbatim>\<open>xIsNext ? 'X' : 'O'\<close>.\<close>

definition turn_mark :: "session \<Rightarrow> mark" where
  "turn_mark st = (if xIsNext st then MarkX else MarkO)"

section \<open>Boards and sessions used in examples\<close>

text \<open>The two boards used below: a full board without a line, and scenario 5 of the
  specification (top row of X).\<close>

definition board_draw :: board where
  "board_draw =
     [Str MarkX, Str MarkO, Str MarkX,
      Str MarkX, Str MarkO, Str MarkO,
      Str MarkO, Str MarkX, Str MarkX]"

definition board_top_row :: board where
  "board_top_row =
     [Str MarkX, Str MarkX, Str MarkX,
      Null, Str MarkO, Null,
      Null, Str MarkO, Null]"

text \<open>Scenarios 1 and 2 of the specification, and two boards on which X has already
  completed the top row.\<close>

definition board_two_X :: board where
  "board_two_X = [Str MarkX, Str MarkX, Null, Null, Null, Null, Null, Null, Null]"

definition board_win_or_block :: board where
  "board_win_or_block = [Str MarkO, Str MarkO, Null, Str MarkX, Str MarkX, Null, Null, Null, Null]"

definition board_X_won :: board where
  "board_X_won = [Str MarkX, Str MarkX, Str MarkX, Null, Null, Null, Str MarkO, Str MarkO, Null]"

definition board_X_won_threat :: board where
  "board_X_won_threat =
     [Str MarkX, Str MarkX, Str MarkX, Null, Str MarkO, Null, Str MarkO, Str MarkO, Str MarkX]"

text \<open>A fresh game against the computer.\<close>

definition pvc_start :: session where
  "pvc_start = switchMode initial_session PvC"

text \<open>Sessions: one with an occupied cell, one that is over, the player-versus-player
  game before and after X completes the top row, and the game against the computer
  reached by the clicks 0, 8, 6 and then 7.\<close>

definition session_two_X :: session where
  "session_two_X = \<lparr>board = board_two_X, xIsNext = False, mode = PvP, isGameOver = False\<rparr>"

definition session_top_row :: session where
  "session_top_row = \<lparr>board = board_top_row, xIsNext = False, mode = PvP, isGameOver = True\<rparr>"

definition session_X_to_win :: session where
  "session_X_to_win =
     \<lparr>board = [Str MarkX, Str MarkX, Null, Str MarkO, Str MarkO, Null, Null, Null, Null],
      xIsNext = True, mode = PvP, isGameOver = False\<rparr>"

definition session_X_just_won :: session where
  "session_X_just_won =
     \<lparr>board = [Str MarkX, Str MarkX, Str MarkX, Str MarkO, Str MarkO, Null, Null, Null, Null],
      xIsNext = False, mode = PvP, isGameOver = True\<rparr>"

definition session_fork :: session where
  "session_fork =
     \<lparr>board = [Str MarkX, Null, Str MarkO, Str MarkO, Str MarkO, Null, Str MarkX, Null, Str MarkX],
      xIsNext = True, mode = PvC, isGameOver = False\<rparr>"

definition session_bottom_row :: session where
  "session_bottom_row =
     \<lparr>board = [Str MarkX, Null, Str MarkO, Str MarkO, Str MarkO, Null,
               Str MarkX, Str MarkX, Str MarkX],
      xIsNext = False, mode = PvC, isGameOver = False\<rparr>"

definition session_both_rows :: session where
  "session_both_rows =
     \<lparr>board = [Str MarkX, Null, Str MarkO, Str MarkO, Str MarkO, Str MarkO,
               Str MarkX, Str MarkX, Str MarkX],
      xIsNext = True, mode = PvC, isGameOver = True\<rparr>"

text \<open>A malformed board with two completed lines (top row of X, middle row of O): the
  first line in scan order is the one both functions report.\<close>

definition board_two_lines :: board where
  "board_two_lines =
     [Str MarkX, Str MarkX, Str MarkX,
      Str MarkO, Str MarkO, Str MarkO,
      Null, Null, Null]"

section \<open>Properties of the evaluator\<close>

lemma truthy_iff: "truthy c \<longleftrightarrow> (\<exists>m. c = Str m)"
  by (cases c) auto

lemma line_won_iff_completed: "line_won squares l \<longleftrightarrow> completed squares l"
proof (cases l)
  case (fields a b c)
  show ?thesis
  proof (cases "get squares a")
    case (Str m)
    then show ?thesis
      using fields by (cases m) (auto simp: completed_def)
  qed (auto simp: fields completed_def)
qed

lemma winner_scan_Cons:
  "winner_scan squares ((a, b, c) # ls) =
     (if line_won squares (a, b, c) then get squares a else winner_scan squares ls)"
  by simp

lemma line_scan_Cons:
  "line_scan squares ((a, b, c) # ls) =
     (if line_won squares (a, b, c) then Some (a, b, c) else line_scan squares ls)"
  by simp

declare winner_scan.simps(2) [simp del] line_scan.simps(2) [simp del] line_won.simps [simp del]

lemma winner_scan_Null_iff:
  "winner_scan squares ls = Null \<longleftrightarrow> (\<forall>l \<in> set ls. \<not> line_won squares l)"
proof (induction ls)
  case Nil
  show ?case by simp
next
  case (Cons l ls)
  obtain a b c where l: "l = (a, b, c)" by (cases l)
  show ?case
  proof (cases "line_won squares l")
    case True
    then have "winner_scan squares (l # ls) = get squares a"
      using l by (simp add: winner_scan_Cons)
    moreover have "truthy (get squares a)"
      using True unfolding l line_won.simps by blast
    ultimately have "winner_scan squares (l # ls) \<noteq> Null"
      by (cases "get squares a") auto
    then show ?thesis using True by simp
  next
    case False
    then show ?thesis using Cons.IH l by (simp add: winner_scan_Cons)
  qed
qed

lemma line_scan_None_iff:
  "line_scan squares ls = None \<longleftrightarrow> (\<forall>l \<in> set ls. \<not> line_won squares l)"
proof (induction ls)
  case Nil
  show ?case by simp
next
  case (Cons l ls)
  obtain a b c where l: "l = (a, b, c)" by (cases l)
  show ?case using Cons.IH by (simp add: l line_scan_Cons)
qed

text \<open>What \<open>line_scan\<close> returns is the first line of the list that passes the test, and
  \<open>winner_scan\<close> returns the content of that line's first cell.\<close>

lemma line_scan_Some_iff:
  "line_scan squares ls = Some l \<longleftrightarrow>
     (\<exists>pre post. ls = pre @ l # post \<and> line_won squares l \<and> (\<forall>k \<in> set pre. \<not> line_won squares k))"
proof (induction ls)
  case Nil
  show ?case by simp
next
  case (Cons k ks)
  obtain a b c where k: "k = (a, b, c)" by (cases k)
  show ?case
  proof (cases "line_won squares k")
    case True
    have "(\<exists>pre post. k # ks = pre @ l # post \<and> line_won squares l
            \<and> (\<forall>j \<in> set pre. \<not> line_won squares j)) \<longleftrightarrow> k = l"
    proof
      assume "\<exists>pre post. k # ks = pre @ l # post \<and> line_won squares l
            \<and> (\<forall>j \<in> set pre. \<not> line_won squares j)"
      then obtain pre post where e: "k # ks = pre @ l # post"
        and n: "\<forall>j \<in> set pre. \<not> line_won squares j" by blast
      show "k = l"
      proof (cases pre)
        case Nil
        with e show ?thesis by simp
      next
        case (Cons p ps)
        with e have "p = k" by simp
        with n Cons True show ?thesis by simp
      qed
    next
      assume "k = l"
      with True have "k # ks = [] @ l # ks \<and> line_won squares l
          \<and> (\<forall>j \<in> set []. \<not> line_won squares j)" by simp
      then show "\<exists>pre post. k # ks = pre @ l # post \<and> line_won squares l
            \<and> (\<forall>j \<in> set pre. \<not> line_won squares j)" by blast
    qed
    then show ?thesis using True k by (simp add: line_scan_Cons)
  next
    case False
    have "(\<exists>pre post. k # ks = pre @ l # post \<and> line_won squares l
            \<and> (\<forall>j \<in> set pre. \<not> line_won squares j))
         \<longleftrightarrow> (\<exists>pre post. ks = pre @ l # post \<and> line_won squares l
            \<and> (\<forall>j \<in> set pre. \<not> line_won squares j))" (is "?L \<longleftrightarrow> ?R")
    proof
      assume ?L
      then obtain pre post where e: "k # ks = pre @ l # post" and w: "line_won squares l"
        and n: "\<forall>j \<in> set pre. \<not> line_won squares j" by blast
      show ?R
      proof (cases pre)
        case Nil
        with e w False show ?thesis by simp
      next
        case (Cons p ps)
        with e n w have "ks = ps @ l # post \<and> line_won squares l
            \<and> (\<forall>j \<in> set ps. \<not> line_won squares j)" by simp
        then show ?thesis by blast
      qed
    next
      assume ?R
      then obtain pre post where "ks = pre @ l # post" "line_won squares l"
        "\<forall>j \<in> set pre. \<not> line_won squares j" by blast
      with False have "k # ks = (k # pre) @ l # post \<and> line_won squares l
          \<and> (\<forall>j \<in> set (k # pre). \<not> line_won squares j)" by simp
      then show ?L by blast
    qed
    then show ?thesis using False k Cons.IH by (simp add: line_scan_Cons)
  qed
qed

lemma scans_agree:
  "winner_scan squares ls =
     (case line_scan squares ls of None \<Rightarrow> Null | Some (a, b, c) \<Rightarrow> get squares a)"
proof (induction ls)
  case Nil
  show ?case by simp
next
  case (Cons l ls)
  obtain a b c where l: "l = (a, b, c)" by (cases l)
  show ?case using Cons.IH by (simp add: l line_scan_Cons winner_scan_Cons)
qed

lemma line_full_won: "line_full squares m l \<Longrightarrow> line_won squares l"
  by (cases l) (simp add: line_won.simps)

lemma line_scan_unique:
  assumes mem: "l \<in> set ls"
    and won: "line_won squares l"
    and others: "\<forall>k \<in> set ls. k \<noteq> l \<longrightarrow> \<not> line_won squares k"
  shows "line_scan squares ls = Some l"
proof -
  from split_list_first [OF mem] obtain pre post
    where ls: "ls = pre @ l # post" and fresh: "l \<notin> set pre" by blast
  have "\<forall>k \<in> set pre. \<not> line_won squares k"
  proof
    fix k assume k: "k \<in> set pre"
    with fresh have "k \<noteq> l" by blast
    moreover from k ls have "k \<in> set ls" by simp
    ultimately show "\<not> line_won squares k" using others by blast
  qed
  with ls won show ?thesis
    unfolding line_scan_Some_iff by blast
qed

text \<open>
  Claim C1. On a board with no completed three-in-a-row line, \<open>calculateWinner\<close> and
  \<open>getWinningLine\<close> both return null. On a board where one of the eight lines is fully
  occupied by a mark and no other line is completed, \<open>calculateWinner\<close> returns that mark
  and \<open>getWinningLine\<close> returns exactly that triple of indices.
\<close>

theorem evaluator_reports_line:
  "((\<forall>l \<in> set WIN_LINES. \<not> completed squares l) \<longrightarrow>
      calculateWinner squares = Null \<and> getWinningLine squares = None)
   \<and> (l \<in> set WIN_LINES \<and> line_full squares m l
        \<and> (\<forall>k \<in> set WIN_LINES. k \<noteq> l \<longrightarrow> \<not> completed squares k) \<longrightarrow>
      calculateWinner squares = Str m \<and> getWinningLine squares = Some l)"
proof (intro conjI impI)
  assume "\<forall>l \<in> set WIN_LINES. \<not> completed squares l"
  then have none: "\<forall>l \<in> set WIN_LINES. \<not> line_won squares l"
    by (simp add: line_won_iff_completed)
  from none show "calculateWinner squares = Null"
    by (simp add: calculateWinner_def winner_scan_Null_iff)
  from none show "getWinningLine squares = None"
    by (simp add: getWinningLine_def line_scan_None_iff)
next
  assume h: "l \<in> set WIN_LINES \<and> line_full squares m l
      \<and> (\<forall>k \<in> set WIN_LINES. k \<noteq> l \<longrightarrow> \<not> completed squares k)"
  obtain a b c where l: "l = (a, b, c)" by (cases l)
  from h have "line_won squares l" using line_full_won by blast
  moreover from h have "\<forall>k \<in> set WIN_LINES. k \<noteq> l \<longrightarrow> \<not> line_won squares k"
    by (simp add: line_won_iff_completed)
  ultimately have scan: "line_scan squares WIN_LINES = Some l"
    using h by (intro line_scan_unique) simp_all
  then show "getWinningLine squares = Some l"
    by (simp add: getWinningLine_def)
  from h l have "get squares a = Str m" by simp
  with scan l show "calculateWinner squares = Str m"
    by (simp add: calculateWinner_def scans_agree [of squares WIN_LINES])
qed


lemmas eval_simps =
  calculateWinner_def getWinningLine_def WIN_LINES_def winner_scan_Cons line_scan_Cons
  line_won.simps get_def completed_def

theorem evaluator_reports_line_witness:
  "list_all (\<lambda>l. \<not> completed board_draw l) WIN_LINES
   \<and> calculateWinner board_draw = Null \<and> getWinningLine board_draw = None
   \<and> (0, 1, 2) \<in> set WIN_LINES \<and> line_full board_top_row MarkX (0, 1, 2)
   \<and> list_all (\<lambda>k. \<not> completed board_top_row k) (removeAll (0, 1, 2) WIN_LINES)
   \<and> calculateWinner board_top_row = Str MarkX
   \<and> getWinningLine board_top_row = Some (0, 1, 2)"
proof -
  have h1: "\<forall>l \<in> set WIN_LINES. \<not> completed board_draw l"
    by (simp add: WIN_LINES_def completed_def get_def board_draw_def)
  have h2: "(0, 1, 2) \<in> set WIN_LINES \<and> line_full board_top_row MarkX (0, 1, 2)
      \<and> (\<forall>k \<in> set WIN_LINES. k \<noteq> (0, 1, 2) \<longrightarrow> \<not> completed board_top_row k)"
    by (simp add: WIN_LINES_def completed_def get_def board_top_row_def)
  from h1 h2
    evaluator_reports_line [of board_draw "(0, 1, 2)" MarkX]
    evaluator_reports_line [of board_top_row "(0, 1, 2)" MarkX]
  show ?thesis unfolding list_all_iff set_removeAll by blast
qed

text \<open>
  Claim C10. On every board, well-formed or not, \<open>getWinningLine\<close> returns null exactly
  when \<open>calculateWinner\<close> does; and a triple returned by \<open>getWinningLine\<close> is one of the
  eight \<open>WIN_LINES\<close>, its three cells all holding the mark that \<open>calculateWinner\<close> returns.
\<close>

theorem evaluators_agree:
  "(getWinningLine squares = None \<longleftrightarrow> calculateWinner squares = Null)
   \<and> (\<forall>a b c. getWinningLine squares = Some (a, b, c) \<longrightarrow>
         (a, b, c) \<in> set WIN_LINES
         \<and> (\<exists>m. calculateWinner squares = Str m \<and> get squares a = Str m
                \<and> get squares b = Str m \<and> get squares c = Str m))"
proof (intro conjI allI impI)
  show "getWinningLine squares = None \<longleftrightarrow> calculateWinner squares = Null"
    by (simp add: getWinningLine_def calculateWinner_def winner_scan_Null_iff line_scan_None_iff)
next
  fix a b c
  assume "getWinningLine squares = Some (a, b, c)"
  then have scan: "line_scan squares WIN_LINES = Some (a, b, c)"
    by (simp add: getWinningLine_def)
  then obtain pre post where split: "WIN_LINES = pre @ (a, b, c) # post"
    and won: "line_won squares (a, b, c)"
    unfolding line_scan_Some_iff by blast
  show "(a, b, c) \<in> set WIN_LINES" unfolding split by simp
  from won obtain m where m: "get squares a = Str m"
    unfolding line_won.simps truthy_iff by blast
  from won have "get squares a = get squares b" "get squares a = get squares c"
    unfolding line_won.simps by blast+
  with m have "get squares b = Str m" "get squares c = Str m"
    by simp_all
  moreover from scan m have "calculateWinner squares = Str m"
    by (simp add: calculateWinner_def scans_agree [of squares WIN_LINES])
  ultimately show "\<exists>m. calculateWinner squares = Str m \<and> get squares a = Str m
      \<and> get squares b = Str m \<and> get squares c = Str m"
    using m by blast
qed


theorem evaluators_agree_witness:
  "getWinningLine board_two_lines = Some (0, 1, 2)
   \<and> (0, 1, 2) \<in> set WIN_LINES
   \<and> calculateWinner board_two_lines = Str MarkX
   \<and> getWinningLine board_draw = None \<and> calculateWinner board_draw = Null"
proof -
  have h1: "getWinningLine board_two_lines = Some (0, 1, 2)"
    by (simp add: eval_simps board_two_lines_def)
  have h2: "getWinningLine board_draw = None"
    by (simp add: eval_simps board_draw_def)
  have g: "get board_two_lines 0 = Str MarkX"
    by (simp add: get_def board_two_lines_def)
  from h1 evaluators_agree [of board_two_lines] obtain m
    where m: "(0, 1, 2) \<in> set WIN_LINES" "calculateWinner board_two_lines = Str m"
      "get board_two_lines 0 = Str m"
    by blast
  from m g have "calculateWinner board_two_lines = Str MarkX" by simp
  moreover from h2 evaluators_agree [of board_draw] have "calculateWinner board_draw = Null"
    by blast
  ultimately show ?thesis using h1 h2 m(1) by blast
qed

section \<open>Properties of the move selector\<close>

lemma get_js_set: "get (js_set squares i v) j = (if j = i then v else get squares j)"
  by (auto simp: get_def js_set_def nth_append)

lemma WIN_LINES_proper:
  "(a, b, c) \<in> set WIN_LINES \<Longrightarrow> a \<noteq> b \<and> a \<noteq> c \<and> b \<noteq> c"
  by (auto simp: WIN_LINES_def)

lemma WIN_LINES_bound:
  "(a, b, c) \<in> set WIN_LINES \<Longrightarrow> a < 9 \<and> b < 9 \<and> c < 9"
  by (auto simp: WIN_LINES_def)

declare completes_line.simps [simp del]

lemma line_won_placed:
  assumes proper: "a \<noteq> b \<and> a \<noteq> c \<and> b \<noteq> c"
    and before: "\<not> line_won squares (a, b, c)"
    and free: "\<not> truthy (get squares i)"
  shows "line_won (js_set squares i (Str m)) (a, b, c) \<longleftrightarrow> completes_line squares m i (a, b, c)"
  using assms unfolding line_won.simps completes_line.simps get_js_set
  by (cases "i = a"; cases "i = b"; cases "i = c") auto

lemma first_cell_placed:
  assumes "completes_line squares m i (a, b, c)" and "\<not> truthy (get squares i)"
  shows "get (js_set squares i (Str m)) a = Str m"
  using assms unfolding completes_line.simps get_js_set by auto

lemma winner_scan_placed:
  assumes proper: "\<forall>(a, b, c) \<in> set ls. a \<noteq> b \<and> a \<noteq> c \<and> b \<noteq> c"
    and before: "\<forall>l \<in> set ls. \<not> line_won squares l"
    and free: "\<not> truthy (get squares i)"
  shows "winner_scan (js_set squares i (Str m)) ls = Str m
     \<longleftrightarrow> (\<exists>l \<in> set ls. completes_line squares m i l)"
  using proper before
proof (induction ls)
  case Nil
  show ?case by simp
next
  case (Cons l ls)
  obtain a b c where l: "l = (a, b, c)" by (cases l)
  from Cons.prems l have p: "a \<noteq> b \<and> a \<noteq> c \<and> b \<noteq> c" and n: "\<not> line_won squares (a, b, c)"
    by auto
  from Cons.prems have IH: "winner_scan (js_set squares i (Str m)) ls = Str m
     \<longleftrightarrow> (\<exists>l \<in> set ls. completes_line squares m i l)"
    by (intro Cons.IH) auto
  show ?case
  proof (cases "completes_line squares m i (a, b, c)")
    case True
    then have "line_won (js_set squares i (Str m)) (a, b, c)"
      using line_won_placed [OF p n free] by simp
    moreover have "get (js_set squares i (Str m)) a = Str m"
      using first_cell_placed [OF True free] .
    ultimately show ?thesis using True l by (simp add: winner_scan_Cons)
  next
    case False
    then have "\<not> line_won (js_set squares i (Str m)) (a, b, c)"
      using line_won_placed [OF p n free] by simp
    then show ?thesis using False l IH by (auto simp: winner_scan_Cons)
  qed
qed

lemma calculateWinner_placed:
  assumes "calculateWinner squares = Null" and "\<not> truthy (get squares i)"
  shows "calculateWinner (js_set squares i (Str m)) = Str m \<longleftrightarrow> completes squares m i"
proof -
  have "\<forall>(a, b, c) \<in> set WIN_LINES. a \<noteq> b \<and> a \<noteq> c \<and> b \<noteq> c"
    using WIN_LINES_proper by blast
  moreover from assms(1) have "\<forall>l \<in> set WIN_LINES. \<not> line_won squares l"
    by (simp add: calculateWinner_def winner_scan_Null_iff)
  ultimately show ?thesis
    using winner_scan_placed [of WIN_LINES squares i m] assms(2)
    by (simp add: calculateWinner_def completes_def list_ex_iff)
qed

lemma winning_cell_Some:
  "winning_cell squares who i = Some k \<Longrightarrow>
     i \<le> k \<and> k < 9 \<and> wins_at squares who k \<and> (\<forall>j. i \<le> j \<and> j < k \<longrightarrow> \<not> wins_at squares who j)"
proof (induction squares who i rule: winning_cell.induct)
  case (1 squares who i)
  show ?case
  proof (cases "i < 9 \<and> \<not> wins_at squares who i")
    case True
    then have "winning_cell squares who i = winning_cell squares who (i + 1)"
      by (subst winning_cell.simps) (auto simp: wins_at_def)
    with "1.prems" have "winning_cell squares who (i + 1) = Some k" by simp
    with "1.IH" True have r: "i + 1 \<le> k \<and> k < 9 \<and> wins_at squares who k
        \<and> (\<forall>j. i + 1 \<le> j \<and> j < k \<longrightarrow> \<not> wins_at squares who j)"
      by (auto simp: wins_at_def)
    have "\<forall>j. i \<le> j \<and> j < k \<longrightarrow> \<not> wins_at squares who j"
    proof (intro allI impI)
      fix j assume "i \<le> j \<and> j < k"
      then have "j = i \<or> (i + 1 \<le> j \<and> j < k)" by arith
      then show "\<not> wins_at squares who j" using True r by blast
    qed
    with r show ?thesis by simp
  next
    case False
    with "1.prems" have "i < 9 \<and> wins_at squares who i \<and> k = i"
      by (subst (asm) winning_cell.simps) (auto simp: wins_at_def split: if_splits)
    then show ?thesis by auto
  qed
qed

lemma winning_cell_None:
  "winning_cell squares who i = None \<Longrightarrow> \<forall>j. i \<le> j \<and> j < 9 \<longrightarrow> \<not> wins_at squares who j"
proof (induction squares who i rule: winning_cell.induct)
  case (1 squares who i)
  show ?case
  proof (cases "i < 9")
    case True
    from "1.prems" True have now: "\<not> wins_at squares who i"
      by (subst (asm) winning_cell.simps) (auto simp: wins_at_def split: if_splits)
    with "1.prems" True have "winning_cell squares who (i + 1) = None"
      by (subst (asm) winning_cell.simps) (auto simp: wins_at_def split: if_splits)
    with "1.IH" True now have r: "\<forall>j. i + 1 \<le> j \<and> j < 9 \<longrightarrow> \<not> wins_at squares who j"
      by (auto simp: wins_at_def)
    show ?thesis
    proof (intro allI impI)
      fix j assume "i \<le> j \<and> j < 9"
      then have "j = i \<or> (i + 1 \<le> j \<and> j < 9)" by arith
      then show "\<not> wins_at squares who j" using now r by blast
    qed
  next
    case False
    then show ?thesis by auto
  qed
qed

lemma winning_cell_least:
  assumes "k < 9" "wins_at squares who k" "\<forall>j < k. \<not> wins_at squares who j"
  shows "winning_cell squares who 0 = Some k"
proof (cases "winning_cell squares who 0")
  case None
  from winning_cell_None [OF None] assms show ?thesis by simp
next
  case (Some k')
  from winning_cell_Some [OF Some] have k': "k' < 9" "wins_at squares who k'"
    "\<forall>j. j < k' \<longrightarrow> \<not> wins_at squares who j" by simp_all
  with assms have "\<not> k' < k" "\<not> k < k'" by blast+
  then have "k' = k" by arith
  with Some show ?thesis by simp
qed


lemma completes_bound: "completes squares m i \<Longrightarrow> i < 9"
  unfolding completes_def list_ex_iff
  using WIN_LINES_bound by (auto simp: completes_line.simps)

lemma wins_at_iff:
  "calculateWinner squares = Null \<Longrightarrow>
     wins_at squares m i \<longleftrightarrow> empty_cell squares i \<and> completes squares m i"
  unfolding wins_at_def empty_cell_def
  using calculateWinner_placed [of squares i m] by blast

lemma wins_at_free: "wins_at squares who i \<Longrightarrow> \<not> truthy (get squares i)"
  by (simp add: wins_at_def)

lemma chooseBestMove_win:
  "winning_cell squares ai 0 = Some k \<Longrightarrow> chooseBestMove squares ai human = int k"
  by (simp add: chooseBestMove_def)

lemma chooseBestMove_block:
  "winning_cell squares ai 0 = None \<Longrightarrow> winning_cell squares human 0 = Some k \<Longrightarrow>
     chooseBestMove squares ai human = int k"
  by (simp add: chooseBestMove_def)

lemma free_of_hd:
  "free_of squares is \<noteq> [] \<Longrightarrow>
     hd (free_of squares is) \<in> set is \<and> \<not> truthy (get squares (hd (free_of squares is)))"
proof -
  assume "free_of squares is \<noteq> []"
  then have "hd (free_of squares is) \<in> set (free_of squares is)" by simp
  then show ?thesis unfolding free_of_def by simp
qed

lemma free_of_Nil: "free_of squares is = [] \<longleftrightarrow> (\<forall>i \<in> set is. truthy (get squares i))"
  by (simp add: free_of_def filter_empty_conv)

lemma below_nine:
  "i < 9 \<longleftrightarrow> i = 4 \<or> i \<in> set [0, 2, 6, 8 :: nat] \<or> i \<in> set [1, 3, 5, 7 :: nat]"
  by (simp; arith)

lemma set_threats: "set (threats squares m) = {i. empty_cell squares i \<and> completes squares m i}"
  using completes_bound by (auto simp: threats_def)

text \<open>
  Claim C4, amended. On every board with no line already completed on which some empty
  cell would complete three-in-a-row for the computer's mark, \<open>chooseBestMove\<close> returns
  such a cell, and the one of lowest index.
\<close>

theorem win_now:
  assumes nowin: "calculateWinner squares = Null"
    and ex: "\<exists>i. empty_cell squares i \<and> completes squares ai i"
  shows "\<exists>k. chooseBestMove squares ai human = int k
           \<and> empty_cell squares k \<and> completes squares ai k
           \<and> (\<forall>j < k. \<not> (empty_cell squares j \<and> completes squares ai j))"
proof -
  define k where "k = (LEAST i. empty_cell squares i \<and> completes squares ai i)"
  from ex have k: "empty_cell squares k \<and> completes squares ai k"
    unfolding k_def by (rule LeastI_ex)
  have least: "\<forall>j < k. \<not> (empty_cell squares j \<and> completes squares ai j)"
    unfolding k_def using not_less_Least by blast
  from k have "k < 9" using completes_bound by blast
  moreover from k nowin have "wins_at squares ai k" by (simp add: wins_at_iff)
  moreover from least nowin have "\<forall>j < k. \<not> wins_at squares ai j" by (simp add: wins_at_iff)
  ultimately have "winning_cell squares ai 0 = Some k" by (rule winning_cell_least)
  then have "chooseBestMove squares ai human = int k" by (rule chooseBestMove_win)
  with k least show ?thesis by blast
qed

theorem win_now_witness:
  "calculateWinner board_win_or_block = Null
   \<and> threats board_win_or_block MarkO = [2]
   \<and> chooseBestMove board_win_or_block MarkO MarkX = 2"
proof -
  have h1: "calculateWinner board_win_or_block = Null" by code_simp
  have t: "threats board_win_or_block MarkO = [2]" by code_simp
  then have "2 \<in> set (threats board_win_or_block MarkO)" by simp
  then have h2: "\<exists>i. empty_cell board_win_or_block i \<and> completes board_win_or_block MarkO i"
    unfolding set_threats by blast
  from win_now [OF h1 h2, of MarkX] obtain k
    where k: "chooseBestMove board_win_or_block MarkO MarkX = int k"
      and "empty_cell board_win_or_block k \<and> completes board_win_or_block MarkO k"
    by blast
  then have "k \<in> set (threats board_win_or_block MarkO)"
    unfolding set_threats by simp
  with t have "k = 2" by simp
  with k h1 t show ?thesis by simp
qed

text \<open>Claim C4 as stated, for every board, fails once a line is completed: with the top
  row of X in place every hypothetical board is reported as won by X, so the loop for the
  computer's mark finds nothing and the loop for the human's mark returns the first empty
  cell, 3, although cell 8 would complete the bottom row for O.\<close>

theorem win_now_counterexample:
  "calculateWinner board_X_won = Str MarkX
   \<and> empty_cell board_X_won 8 \<and> completes board_X_won MarkO 8
   \<and> threats board_X_won MarkO = [8]
   \<and> \<not> completes board_X_won MarkO 3
   \<and> chooseBestMove board_X_won MarkO MarkX = 3"
  by code_simp

text \<open>
  Claim C5, amended. On every board with no line already completed on which no empty cell
  would complete three-in-a-row for the computer's mark and exactly one empty cell would
  do so for the human's mark, \<open>chooseBestMove\<close> returns that cell.
\<close>

theorem block_human:
  assumes nowin: "calculateWinner squares = Null"
    and noai: "\<forall>i. \<not> (empty_cell squares i \<and> completes squares ai i)"
    and k: "empty_cell squares k \<and> completes squares human k"
    and uniq: "\<forall>j. empty_cell squares j \<and> completes squares human j \<longrightarrow> j = k"
  shows "chooseBestMove squares ai human = int k"
proof -
  have "winning_cell squares ai 0 = None"
  proof (cases "winning_cell squares ai 0")
    case (Some k')
    from winning_cell_Some [OF Some] have "wins_at squares ai k'" by simp
    with nowin noai show ?thesis using wins_at_iff by blast
  qed simp
  moreover have "winning_cell squares human 0 = Some k"
  proof (rule winning_cell_least)
    from k show "k < 9" using completes_bound by blast
    from k nowin show "wins_at squares human k" by (simp add: wins_at_iff)
    from uniq nowin show "\<forall>j < k. \<not> wins_at squares human j" by (auto simp: wins_at_iff)
  qed
  ultimately show ?thesis by (rule chooseBestMove_block)
qed

theorem block_human_witness:
  "calculateWinner board_two_X = Null
   \<and> threats board_two_X MarkO = []
   \<and> threats board_two_X MarkX = [2]
   \<and> chooseBestMove board_two_X MarkO MarkX = 2"
proof -
  have h1: "calculateWinner board_two_X = Null" by code_simp
  have tO: "threats board_two_X MarkO = []" by code_simp
  have tX: "threats board_two_X MarkX = [2]" by code_simp
  have h2: "\<forall>i. \<not> (empty_cell board_two_X i \<and> completes board_two_X MarkO i)"
    using set_threats [of board_two_X MarkO] unfolding tO by auto
  have "2 \<in> set (threats board_two_X MarkX)" by (simp add: tX)
  then have h3: "empty_cell board_two_X 2 \<and> completes board_two_X MarkX 2"
    unfolding set_threats by simp
  have h4: "\<forall>j. empty_cell board_two_X j \<and> completes board_two_X MarkX j \<longrightarrow> j = 2"
    using set_threats [of board_two_X MarkX] unfolding tX by auto
  from block_human [OF h1 h2 h3 h4] h1 tO tX show ?thesis by simp
qed

text \<open>Claim C5 as stated fails the same way: here cell 5 is the only empty cell that
  completes a line, for X, and the first empty cell, 3, is returned.\<close>

theorem block_human_counterexample:
  "calculateWinner board_X_won_threat = Str MarkX
   \<and> threats board_X_won_threat MarkO = []
   \<and> threats board_X_won_threat MarkX = [5]
   \<and> chooseBestMove board_X_won_threat MarkO MarkX = 3"
  by code_simp

lemma chooseBestMove_cases:
  "(chooseBestMove squares ai human = - 1 \<and> (\<forall>i < 9. truthy (get squares i)))
   \<or> (\<exists>k < 9. chooseBestMove squares ai human = int k \<and> \<not> truthy (get squares k))"
proof (cases "winning_cell squares ai 0")
  case (Some k)
  from winning_cell_Some [OF Some] have "k < 9" "\<not> truthy (get squares k)"
    using wins_at_free by blast+
  with chooseBestMove_win [OF Some] show ?thesis by blast
next
  case ai: None
  show ?thesis
  proof (cases "winning_cell squares human 0")
    case (Some k)
    from winning_cell_Some [OF Some] have "k < 9" "\<not> truthy (get squares k)"
      using wins_at_free by blast+
    with chooseBestMove_block [OF ai Some] show ?thesis by blast
  next
    case human: None
    show ?thesis
    proof (cases "truthy (get squares 4)")
      case False
      with ai human have "chooseBestMove squares ai human = int 4"
        by (simp add: chooseBestMove_def)
      with False show ?thesis by (intro disjI2 exI [of _ 4]) simp
    next
      case centre: True
      show ?thesis
      proof (cases "free_of squares [0, 2, 6, 8] = []")
        case False
        with ai human centre
        have "chooseBestMove squares ai human = int (hd (free_of squares [0, 2, 6, 8]))"
          by (simp add: chooseBestMove_def)
        moreover from free_of_hd [OF False]
        have "hd (free_of squares [0, 2, 6, 8]) < 9"
          "\<not> truthy (get squares (hd (free_of squares [0, 2, 6, 8])))"
          by auto
        ultimately show ?thesis by blast
      next
        case corners: True
        show ?thesis
        proof (cases "free_of squares [1, 3, 5, 7] = []")
          case False
          with ai human centre corners
          have "chooseBestMove squares ai human = int (hd (free_of squares [1, 3, 5, 7]))"
            by (simp add: chooseBestMove_def)
          moreover from free_of_hd [OF False]
          have "hd (free_of squares [1, 3, 5, 7]) < 9"
            "\<not> truthy (get squares (hd (free_of squares [1, 3, 5, 7])))"
            by auto
          ultimately show ?thesis by blast
        next
          case sides: True
          with ai human centre corners have "chooseBestMove squares ai human = - 1"
            by (simp add: chooseBestMove_def)
          moreover have "\<forall>i < 9. truthy (get squares i)"
            using centre corners sides unfolding free_of_Nil below_nine by blast
          ultimately show ?thesis by blast
        qed
      qed
    qed
  qed
qed

text \<open>
  Claim C6. On every board of nine cells, \<open>chooseBestMove\<close> returns \<open>-1\<close> exactly when
  no cell is empty, and otherwise the index of an empty cell; so it never returns the index
  of an occupied cell.
\<close>

theorem move_is_free:
  assumes len: "length squares = 9"
  shows "(chooseBestMove squares ai human = - 1 \<longleftrightarrow> (\<forall>i < 9. truthy (squares ! i)))
     \<and> (chooseBestMove squares ai human \<noteq> - 1 \<longrightarrow>
          (\<exists>k < 9. chooseBestMove squares ai human = int k \<and> \<not> truthy (squares ! k)))"
proof -
  have g: "\<And>i. i < 9 \<Longrightarrow> get squares i = squares ! i"
    using len by (simp add: get_def)
  from chooseBestMove_cases [of squares ai human] show ?thesis
  proof
    assume "chooseBestMove squares ai human = - 1 \<and> (\<forall>i < 9. truthy (get squares i))"
    then show ?thesis using g by simp
  next
    assume "\<exists>k < 9. chooseBestMove squares ai human = int k \<and> \<not> truthy (get squares k)"
    then obtain k where "k < 9" "chooseBestMove squares ai human = int k" "\<not> truthy (squares ! k)"
      using g by auto
    then show ?thesis by auto
  qed
qed

theorem move_is_free_witness:
  "length board_draw = 9 \<and> list_all truthy board_draw
   \<and> chooseBestMove board_draw MarkO MarkX = - 1
   \<and> length board_two_X = 9 \<and> \<not> truthy (board_two_X ! 2)
   \<and> chooseBestMove board_two_X MarkO MarkX \<noteq> - 1"
proof -
  have l1: "length board_draw = 9" by (simp add: board_draw_def)
  have a1: "list_all truthy board_draw" by (simp add: board_draw_def)
  then have "\<forall>i < 9. truthy (board_draw ! i)"
    using l1 by (simp add: list_all_length)
  with move_is_free [OF l1, of MarkO MarkX]
  have r1: "chooseBestMove board_draw MarkO MarkX = - 1" by blast
  have l2: "length board_two_X = 9" by (simp add: board_two_X_def)
  have a2: "\<not> truthy (board_two_X ! 2)" by (simp add: board_two_X_def)
  moreover have "(2::nat) < 9" by simp
  ultimately have "\<not> (\<forall>i < 9. truthy (board_two_X ! i))" by blast
  with move_is_free [OF l2, of MarkO MarkX]
  have r2: "chooseBestMove board_two_X MarkO MarkX \<noteq> - 1" by blast
  from l1 a1 r1 l2 a2 r2 show ?thesis by blast
qed

section \<open>Properties of the game session\<close>

lemma winner_scan_range: "winner_scan squares ls = Null \<or> truthy (winner_scan squares ls)"
proof (induction ls)
  case Nil
  show ?case by simp
next
  case (Cons l ls)
  obtain a b c where l: "l = (a, b, c)" by (cases l)
  show ?case using Cons.IH unfolding l winner_scan_Cons line_won.simps by auto
qed

lemma calculateWinner_falsy: "\<not> truthy (calculateWinner squares) \<longleftrightarrow> calculateWinner squares = Null"
  using winner_scan_range [of squares WIN_LINES] by (auto simp: calculateWinner_def)

lemma gameStatus_over:
  "gameStatus squares \<noteq> InProgress \<longleftrightarrow> truthy (calculateWinner squares) \<or> isDraw squares"
  by (cases "calculateWinner squares") (auto simp: gameStatus_def isDraw_def)

lemma every_Boolean_dense:
  assumes "Hole \<notin> set squares"
  shows "every_Boolean squares \<longleftrightarrow> (\<forall>i < length squares. squares ! i \<noteq> Null)"
proof -
  have "\<And>c. c \<in> set squares \<Longrightarrow> (c = Hole \<or> truthy c) = (c \<noteq> Null)"
    using assms by (case_tac c) auto
  then have "every_Boolean squares \<longleftrightarrow> (\<forall>c \<in> set squares. c \<noteq> Null)"
    by (simp add: every_Boolean_def list_all_iff)
  then show ?thesis by (simp add: all_set_conv_all_nth)
qed

text \<open>
  Claim C7. On every board of nine cells (each \<^verbatim>\<open>null\<close>, \<^verbatim>\<open>'X'\<close> or \<^verbatim>\<open>'O'\<close>),
  \<open>isDraw\<close> is true exactly when \<open>calculateWinner\<close> returns null and none of the nine
  cells is empty.
\<close>

theorem isDraw_iff:
  assumes "length squares = 9" and "Hole \<notin> set squares"
  shows "isDraw squares \<longleftrightarrow> calculateWinner squares = Null \<and> (\<forall>i < 9. squares ! i \<noteq> Null)"
  using assms every_Boolean_dense [of squares]
  by (simp add: isDraw_def calculateWinner_falsy)

theorem isDraw_iff_witness:
  "length board_draw = 9 \<and> Hole \<notin> set board_draw \<and> calculateWinner board_draw = Null
   \<and> list_all (\<lambda>c. c \<noteq> Null) board_draw \<and> isDraw board_draw
   \<and> length board_top_row = 9 \<and> Hole \<notin> set board_top_row \<and> \<not> isDraw board_top_row"
proof -
  have l1: "length board_draw = 9" and n1: "Hole \<notin> set board_draw"
    and a1: "list_all (\<lambda>c. c \<noteq> Null) board_draw"
    by (simp_all add: board_draw_def)
  have w1: "calculateWinner board_draw = Null" by code_simp
  from a1 l1 have "\<forall>i < 9. board_draw ! i \<noteq> Null" by (simp add: list_all_length)
  with isDraw_iff [OF l1 n1] w1 have d1: "isDraw board_draw" by blast
  have l2: "length board_top_row = 9" and n2: "Hole \<notin> set board_top_row"
    by (simp_all add: board_top_row_def)
  have "calculateWinner board_top_row \<noteq> Null" by code_simp
  with isDraw_iff [OF l2 n2] have d2: "\<not> isDraw board_top_row" by blast
  from l1 n1 w1 a1 d1 l2 n2 d2 show ?thesis by blast
qed

text \<open>The effects after a render: when they leave the state alone, and why rendering
  comes to rest after at most three rounds.\<close>

lemma empty_board_status: "gameStatus (replicate 9 Null) = InProgress"
  by code_simp

lemma empty_board_over: "\<not> truthy (calculateWinner (replicate 9 Null)) \<and> \<not> isDraw (replicate 9 Null)"
  using empty_board_status gameStatus_over [of "replicate 9 Null"] by simp

lemma aiEffect_guarded:
  "mode st \<noteq> PvC \<or> isGameOver st \<or> xIsNext st \<Longrightarrow> aiEffect st = st"
  by (auto simp: aiEffect_def)

lemma commit_idle:
  "aiEffect st = st \<Longrightarrow>
     commit st = st\<lparr>isGameOver := (truthy (calculateWinner (board st)) \<or> isDraw (board st))\<rparr>"
  by (simp add: commit_def gameOverEffect_def)

lemma commit_flag:
  "isGameOver (commit st) = (gameStatus (board st) \<noteq> InProgress)"
  by (simp add: commit_def gameOverEffect_def gameStatus_over)

lemma settled_flag:
  "commit st = st \<Longrightarrow> isGameOver st = (gameStatus (board st) \<noteq> InProgress)"
  using commit_flag [of st] by simp

lemma aiEffect_turn: "aiEffect st \<noteq> st \<Longrightarrow> xIsNext (aiEffect st)"
  by (auto simp: aiEffect_def Let_def split: if_splits)

lemma commit_turn: "aiEffect st \<noteq> st \<Longrightarrow> xIsNext (commit st)"
  using aiEffect_turn by (simp add: commit_def)

lemma commit_twice_X: 
  assumes "xIsNext st"
  shows "commit (commit st) = commit st"
proof -
  from assms have a: "aiEffect st = st" by (simp add: aiEffect_guarded)
  let ?s = "commit st"
  from a have c: "?s = st\<lparr>isGameOver := (truthy (calculateWinner (board st)) \<or> isDraw (board st))\<rparr>"
    by (rule commit_idle)
  then have "xIsNext ?s" using assms by simp
  then have "aiEffect ?s = ?s" by (simp add: aiEffect_guarded)
  then have "commit ?s = ?s\<lparr>isGameOver := (truthy (calculateWinner (board ?s)) \<or> isDraw (board ?s))\<rparr>"
    by (rule commit_idle)
  also have "\<dots> = ?s" using c by simp
  finally show ?thesis .
qed

lemma commit_stabilises: "commit (commit (commit (commit st))) = commit (commit (commit st))"
proof (cases "aiEffect st = st")
  case False
  then have "xIsNext (commit st)" by (rule commit_turn)
  then have "commit (commit (commit st)) = commit (commit st)" by (rule commit_twice_X)
  then show ?thesis by simp
next
  case idle: True
  show ?thesis
  proof (cases "aiEffect (commit st) = commit st")
    case False
    then have "xIsNext (commit (commit st))" by (rule commit_turn)
    then show ?thesis by (rule commit_twice_X)
  next
    case True
    let ?s = "commit st"
    from idle have c: "?s = st\<lparr>isGameOver := (truthy (calculateWinner (board st)) \<or> isDraw (board st))\<rparr>"
      by (rule commit_idle)
    from True have "commit ?s = ?s\<lparr>isGameOver := (truthy (calculateWinner (board ?s)) \<or> isDraw (board ?s))\<rparr>"
      by (rule commit_idle)
    also have "\<dots> = ?s" using c by simp
    finally show ?thesis by simp
  qed
qed

lemma settle_step:
  "\<exists>st'. settle (commit st) = Some st' \<and> commit st' = st' \<Longrightarrow>
   \<exists>st'. settle st = Some st' \<and> commit st' = st'"
  by (subst settle.simps) auto

lemma settle_total: "\<exists>st'. settle st = Some st' \<and> commit st' = st'"
proof -
  let ?s3 = "commit (commit (commit st))"
  have "commit ?s3 = ?s3" by (rule commit_stabilises)
  then have "settle ?s3 = Some ?s3" by (subst settle.simps) simp
  with \<open>commit ?s3 = ?s3\<close> have "\<exists>st'. settle ?s3 = Some st' \<and> commit st' = st'" by blast
  then have "\<exists>st'. settle (commit (commit st)) = Some st' \<and> commit st' = st'"
    by (rule settle_step)
  then have "\<exists>st'. settle (commit st) = Some st' \<and> commit st' = st'"
    by (rule settle_step)
  then show ?thesis by (rule settle_step)
qed

text \<open>
  Claim C9. From every session state, \<open>restartGame\<close> yields a board of nine empty cells,
  X to move and the game in progress, and keeps the mode; the effects then leave that
  state as it is. \<open>switchMode\<close> does the same reset and stores its argument as the mode.
\<close>

theorem restart_resets:
  "board (restartGame st) = replicate 9 Null
   \<and> xIsNext (restartGame st)
   \<and> \<not> isGameOver (restartGame st)
   \<and> gameStatus (board (restartGame st)) = InProgress
   \<and> mode (restartGame st) = mode st
   \<and> settle (restartGame st) = Some (restartGame st)
   \<and> switchMode st newMode = (restartGame st)\<lparr>mode := newMode\<rparr>
   \<and> mode (switchMode st newMode) = newMode
   \<and> settle (switchMode st newMode) = Some (switchMode st newMode)"
proof -
  have fixed: "commit s = s" if "board s = replicate 9 Null" "xIsNext s" "\<not> isGameOver s" for s
  proof -
    from that have "aiEffect s = s" by (simp add: aiEffect_guarded)
    then show ?thesis using that empty_board_over by (simp add: commit_idle)
  qed
  have "commit (restartGame st) = restartGame st"
    by (rule fixed) (simp_all add: restartGame_def)
  then have r: "settle (restartGame st) = Some (restartGame st)"
    by (subst settle.simps) simp
  have "commit (switchMode st newMode) = switchMode st newMode"
    by (rule fixed) (simp_all add: switchMode_def)
  then have s: "settle (switchMode st newMode) = Some (switchMode st newMode)"
    by (subst settle.simps) simp
  from r s show ?thesis
    by (simp add: restartGame_def switchMode_def empty_board_status)
qed

text \<open>
  Claim C2, amended. For every session state and index, \<open>handleCellClick\<close> on a
  non-empty cell, or with the game-over flag set, as it is in every settled state whose
  status is won or draw, leaves the whole session state unchanged.
\<close>

theorem click_ignored:
  assumes "truthy (get (board st) index) \<or> isGameOver st
     \<or> (commit st = st \<and> gameStatus (board st) \<noteq> InProgress)"
  shows "handleCellClick st index = st"
proof -
  from assms have "truthy (get (board st) index) \<or> isGameOver st"
    using settled_flag by blast
  then show ?thesis by (auto simp: handleCellClick_def)
qed

theorem click_ignored_witness:
  "truthy (get (board session_two_X) 0) \<and> handleCellClick session_two_X 0 = session_two_X
   \<and> empty_cell (board session_top_row) 3 \<and> commit session_top_row = session_top_row
   \<and> gameStatus (board session_top_row) = Won MarkX
   \<and> handleCellClick session_top_row 3 = session_top_row"
proof -
  have h1: "truthy (get (board session_two_X) 0)" by code_simp
  have e: "empty_cell (board session_top_row) 3" by code_simp
  have c: "commit session_top_row = session_top_row" by code_simp
  have g: "gameStatus (board session_top_row) = Won MarkX" by code_simp
  from c g have h2: "commit session_top_row = session_top_row
      \<and> gameStatus (board session_top_row) \<noteq> InProgress" by simp
  from h1 click_ignored [of session_two_X 0] have r1: "handleCellClick session_two_X 0 = session_two_X"
    by blast
  from h2 click_ignored [of session_top_row 3] have r2: "handleCellClick session_top_row 3 = session_top_row"
    by blast
  from h1 e c g r1 r2 show ?thesis by blast
qed

text \<open>Claim C2 as stated also covers indices outside 0 to 8. The guard of
  \<open>handleCellClick\<close> has no range check: \<^verbatim>\<open>board[9]\<close> is \<^verbatim>\<open>undefined\<close>, hence falsy, so
  in a game in progress the click is accepted, the board grows to ten cells and the turn
  passes on.\<close>

theorem click_out_of_range_counterexample:
  "gameStatus (board initial_session) = InProgress
   \<and> commit initial_session = initial_session
   \<and> length (board initial_session) = 9
   \<and> board (handleCellClick initial_session 9) = replicate 9 Null @ [Str MarkX]
   \<and> xIsNext initial_session \<and> \<not> xIsNext (handleCellClick initial_session 9)
   \<and> handleCellClick initial_session 9 \<noteq> initial_session"
  by code_simp

text \<open>
  Claim C3, amended. For every session whose game-over flag is clear and every empty
  in-range cell, \<open>handleCellClick\<close> sets exactly that cell to the mark of the current
  turn and flips the turn, whatever the status of the new board; the effects of the next
  render store whether that board is won or drawn.
\<close>

theorem move_applied:
  assumes "\<not> isGameOver st" and "index < length (board st)" and "\<not> truthy (board st ! index)"
  shows "handleCellClick st index =
           st\<lparr>board := (board st)[index := Str (turn_mark st)], xIsNext := \<not> xIsNext st\<rparr>
     \<and> isGameOver (commit (handleCellClick st index))
         = (gameStatus (board (handleCellClick st index)) \<noteq> InProgress)"
  using assms
  by (simp add: handleCellClick_def get_def js_set_def turn_mark_def commit_flag)

theorem move_applied_witness:
  "\<not> isGameOver session_X_to_win \<and> 2 < length (board session_X_to_win)
   \<and> \<not> truthy (board session_X_to_win ! 2)
   \<and> handleCellClick session_X_to_win 2 = session_X_just_won\<lparr>isGameOver := False\<rparr>
   \<and> commit (handleCellClick session_X_to_win 2) = session_X_just_won"
proof -
  have h: "\<not> isGameOver session_X_to_win" "2 < length (board session_X_to_win)"
    "\<not> truthy (board session_X_to_win ! 2)"
    by (simp_all add: session_X_to_win_def)
  have u: "session_X_to_win\<lparr>board := (board session_X_to_win)[2 := Str (turn_mark session_X_to_win)],
        xIsNext := \<not> xIsNext session_X_to_win\<rparr> = session_X_just_won\<lparr>isGameOver := False\<rparr>"
    by (simp add: session_X_to_win_def session_X_just_won_def turn_mark_def)
  from move_applied [OF h] u
  have r: "handleCellClick session_X_to_win 2 = session_X_just_won\<lparr>isGameOver := False\<rparr>"
    by simp
  have "commit (session_X_just_won\<lparr>isGameOver := False\<rparr>) = session_X_just_won"
    by code_simp
  with r h show ?thesis by simp
qed

text \<open>Claim C3 as stated keeps the turn when the move wins. \<open>handleCellClick\<close> calls
  \<^verbatim>\<open>setXIsNext(!xIsNext)\<close> unconditionally: after the clicks 0, 3, 1, 4 it is X to move,
  the click on 2 completes the top row, and the turn has passed to O.\<close>

theorem turn_flips_on_win_counterexample:
  "clicks initial_session [0, 3, 1, 4] = Some session_X_to_win
   \<and> gameStatus (board session_X_to_win) = InProgress
   \<and> xIsNext session_X_to_win
   \<and> click session_X_to_win 2 = Some session_X_just_won
   \<and> gameStatus (board session_X_just_won) = Won MarkX
   \<and> \<not> xIsNext session_X_just_won
   \<and> xIsNext (handleCellClick session_X_to_win 2) \<noteq> xIsNext session_X_to_win"
  by code_simp

text \<open>
  Claim C8. The effect that moves for the computer returns early on the game-over flag,
  but the flag it reads is the one of the render in which it runs, stored by the other
  effect of the previous render. Against the computer, the clicks 0, 8, 6 leave X with a
  fork; the click on 7 completes the bottom row. In the render that follows the board is
  won by X while the flag is still clear, so the computer places O on cell 5, completes
  the middle row, and the board is then reported as won by O.
\<close>

theorem computer_moves_after_win:
  "clicks pvc_start [0, 8, 6] = Some session_fork
   \<and> handleCellClick session_fork 7 = session_bottom_row
   \<and> gameStatus (board session_bottom_row) = Won MarkX
   \<and> aiEffect session_bottom_row =
        session_bottom_row\<lparr>board := (board session_bottom_row)[5 := Str MarkO], xIsNext := True\<rparr>
   \<and> commit session_bottom_row = session_both_rows
   \<and> clicks pvc_start [0, 8, 6, 7] = Some session_both_rows
   \<and> gameStatus (board session_both_rows) = Won MarkO"
  by code_simp

end
